theory Spec2Isabelle
  imports Main "HOL-Library.Sublist" "HOL-Library.Multiset" "HOL-Library.Word"
begin

section \<open>The bounded blocking deque (\<^verbatim>\<open>src/core/thread_safe_deque.hpp\<close>)\<close>

text \<open>
  \<^verbatim>\<open>ThreadSafeDeque<T>\<close> keeps three data members besides its mutex and its two condition
  variables: the container \<^verbatim>\<open>deque_\<close> (front at index 0, back at the last index), the
  constant \<^verbatim>\<open>max_size_\<close> and the flag \<^verbatim>\<open>done_\<close>. Every member function takes \<^verbatim>\<open>mut_\<close>
  for its whole body, so each call is one atomic transformation of these three fields.
  The owning pointers around the elements carry no behaviour and are left out. A name
  cannot end in an underscore here, so the fields are \<open>deque_m\<close>, \<open>max_size_m\<close> and
  \<open>done_m\<close>.
\<close>

record 'a ThreadSafeDeque =
  deque_m :: "'a list"
  max_size_m :: nat
  done_m :: bool

text \<open>
  A call that waits on a condition variable whose predicate is false has not returned:
  its outcome is \<open>Blocks\<close> and the fields are as before. \<open>Returns r\<close> is a completed call.
\<close>

datatype 'r outcome = Blocks | Returns 'r

text \<open>\<^verbatim>\<open>ThreadSafeDeque(size_t max_size = 50) : max_size_(max_size) {}\<close>, \<^verbatim>\<open>done_ = false\<close>.\<close>

definition ThreadSafeDeque_ctor :: "nat \<Rightarrow> 'a ThreadSafeDeque" where
  "ThreadSafeDeque_ctor max_size = \<lparr>deque_m = [], max_size_m = max_size, done_m = False\<rparr>"

definition ThreadSafeDeque_default :: "'a ThreadSafeDeque" where
  "ThreadSafeDeque_default = ThreadSafeDeque_ctor 50"

text \<open>
  \<^verbatim>\<open>push\<close>: wait until \<^verbatim>\<open>done_ || deque_.size() < max_size_\<close>; return at once when
  \<^verbatim>\<open>done_\<close>; otherwise \<^verbatim>\<open>push_back\<close>.
\<close>

definition push :: "'a \<Rightarrow> 'a ThreadSafeDeque \<Rightarrow> 'a ThreadSafeDeque outcome" where
  "push v s =
     (if \<not> (done_m s \<or> length (deque_m s) < max_size_m s) then Blocks
      else if done_m s then Returns s
      else Returns (s\<lparr>deque_m := deque_m s @ [v]\<rparr>))"

text \<open>
  \<^verbatim>\<open>try_pop\<close>: \<^verbatim>\<open>false\<close> on an empty container, otherwise the back element is moved to the
  out-parameter and removed. The pair (\<^verbatim>\<open>bool\<close>, out-parameter) is an \<open>option\<close>.
\<close>

definition try_pop :: "'a ThreadSafeDeque \<Rightarrow> 'a option \<times> 'a ThreadSafeDeque" where
  "try_pop s =
     (if deque_m s = [] then (None, s)
      else (Some (last (deque_m s)), s\<lparr>deque_m := butlast (deque_m s)\<rparr>))"

text \<open>\<^verbatim>\<open>try_steal\<close>: the same at the front.\<close>

definition try_steal :: "'a ThreadSafeDeque \<Rightarrow> 'a option \<times> 'a ThreadSafeDeque" where
  "try_steal s =
     (if deque_m s = [] then (None, s)
      else (Some (hd (deque_m s)), s\<lparr>deque_m := tl (deque_m s)\<rparr>))"

text \<open>
  \<^verbatim>\<open>wait_and_pop\<close>: wait until \<^verbatim>\<open>done_ || !deque_.empty()\<close>; \<^verbatim>\<open>false\<close> when
  \<^verbatim>\<open>done_ && deque_.empty()\<close>; otherwise pop at the back.
\<close>

definition wait_and_pop :: "'a ThreadSafeDeque \<Rightarrow> ('a option \<times> 'a ThreadSafeDeque) outcome" where
  "wait_and_pop s =
     (if \<not> (done_m s \<or> deque_m s \<noteq> []) then Blocks
      else if done_m s \<and> deque_m s = [] then Returns (None, s)
      else Returns (Some (last (deque_m s)), s\<lparr>deque_m := butlast (deque_m s)\<rparr>))"

text \<open>\<^verbatim>\<open>close\<close>: \<^verbatim>\<open>done_ = true\<close>, then both condition variables are notified.\<close>

definition close :: "'a ThreadSafeDeque \<Rightarrow> 'a ThreadSafeDeque" where
  "close s = s\<lparr>done_m := True\<rparr>"

text \<open>
  The five member functions as one alphabet, and the fields a call leaves behind. A call
  that blocks leaves them as they were.
\<close>

datatype 'a deque_op = Push 'a | TryPop | TrySteal | WaitAndPop | Close

fun apply_op :: "'a deque_op \<Rightarrow> 'a ThreadSafeDeque \<Rightarrow> 'a ThreadSafeDeque" where
  "apply_op (Push v) s = (case push v s of Blocks \<Rightarrow> s | Returns s' \<Rightarrow> s')"
| "apply_op TryPop s = snd (try_pop s)"
| "apply_op TrySteal s = snd (try_steal s)"
| "apply_op WaitAndPop s = (case wait_and_pop s of Blocks \<Rightarrow> s | Returns r \<Rightarrow> snd r)"
| "apply_op Close s = close s"

fun run_ops :: "'a deque_op list \<Rightarrow> 'a ThreadSafeDeque \<Rightarrow> 'a ThreadSafeDeque" where
  "run_ops [] s = s"
| "run_ops (x # xs) s = run_ops xs (apply_op x s)"

section \<open>The pool and its workers (\<^verbatim>\<open>src/core/thread_pool.hpp\<close>)\<close>

text \<open>
  \<^verbatim>\<open>TaskFunc\<close> is \<^verbatim>\<open>std::function<void()>\<close>: either empty, or a callable, here named by a
  value of type \<open>'t\<close>.
\<close>

datatype 't TaskFunc = EmptyFunc | Func 't

type_synonym 't Queue = "'t TaskFunc ThreadSafeDeque"

text \<open>
  The control points of \<^verbatim>\<open>ThreadPool::worker\<close>, one before each action on shared state:
  the loop condition, the three queue calls, and the two places where \<^verbatim>\<open>task\<close> is
  invoked (unguarded after \<^verbatim>\<open>try_pop\<close> and \<^verbatim>\<open>try_steal\<close>, under \<^verbatim>\<open>if (task)\<close> after
  \<^verbatim>\<open>wait_and_pop\<close>).
\<close>

datatype 't worker_pc =
    AtLoopTop
  | AtTryPop
  | AtCall "'t TaskFunc"
  | AtSteal
  | AtWaitPop
  | AtGuardedCall "'t TaskFunc"
  | Exited

text \<open>
  A \<^verbatim>\<open>std::jthread\<close> owns a stop state of its own and hands the token of that state to
  a thread function that takes a \<^verbatim>\<open>std::stop_token\<close> first, as the lambda in the
  constructor does. So \<^verbatim>\<open>token\<close> in \<^verbatim>\<open>worker\<close> reads \<open>stop_state\<close> of the worker's own
  \<^verbatim>\<open>jthread\<close>; the source never calls \<^verbatim>\<open>stop_source_.get_token()\<close>.
\<close>

record 't jthread =
  stop_state :: bool
  pc :: "'t worker_pc"

text \<open>
  The control points of the thread that runs \<^verbatim>\<open>~ThreadPool\<close>: the body
  (\<^verbatim>\<open>request_stop\<close>, then the loop of \<^verbatim>\<open>stop_workers\<close>), then the members in reverse
  order of declaration, of which \<^verbatim>\<open>work_queues\<close> comes before \<^verbatim>\<open>threads\<close>; the destructor
  of each \<^verbatim>\<open>jthread\<close> requests stop on its own stop state and joins.
\<close>

datatype dtor_pc =
    Alive
  | AtStopWorkers nat
  | AtDestroyQueues
  | AtStopThread nat
  | AtJoinThread nat
  | Destroyed

text \<open>
  The members of \<^verbatim>\<open>ThreadPool\<close>. \<open>work_queues\<close> is \<open>None\<close> once the array is deleted.
  The generator \<^verbatim>\<open>mt\<close> and its mutex are not state here: what \<^verbatim>\<open>get_random\<close> returns is
  given with each event. Three fields are bookkeeping: \<open>executed\<close> lists the callables
  whose bodies have run, \<open>terminated\<close> records \<^verbatim>\<open>std::terminate\<close>, \<open>dtor\<close> is the control
  point of the destructor.
\<close>

record 't ThreadPool =
  stop_source_m :: bool
  threads :: "'t jthread list"
  work_queues :: "'t Queue list option"
  thread_count :: nat
  executed :: "'t list"
  terminated :: bool
  dtor :: dtor_pc

text \<open>
  The constructor: \<^verbatim>\<open>thread_count = std::max(1, (int)std::thread::hardware_concurrency())\<close>
  (an \<^verbatim>\<open>unsigned\<close> read as \<^verbatim>\<open>int\<close>), \<^verbatim>\<open>thread_count\<close> default-constructed queues, one
  worker per index.
\<close>

definition ThreadPool_ctor :: "32 word \<Rightarrow> 't ThreadPool" where
  "ThreadPool_ctor hardware_concurrency =
     (let n = nat (max 1 (sint hardware_concurrency)) in
      \<lparr>stop_source_m = False,
       threads = replicate n \<lparr>stop_state = False, pc = AtLoopTop\<rparr>,
       work_queues = Some (replicate n ThreadSafeDeque_default),
       thread_count = n,
       executed = [],
       terminated = False,
       dtor = Alive\<rparr>)"

text \<open>
  \<^verbatim>\<open>get_random\<close> draws from \<^verbatim>\<open>std::uniform_int_distribution<int>(0, thread_count - 1)\<close>:
  the values it can return.
\<close>

definition get_random :: "'t ThreadPool \<Rightarrow> nat set" where
  "get_random p = {0 ..< thread_count p}"

text \<open>
  Events are completed atomic actions. A step is \<open>None\<close> when the action cannot happen:
  the thread is blocked (a wait whose predicate is false, a join on a running thread) or
  has finished, the process has terminated, or the action reads the queue array after
  its deletion, which has no defined behaviour.

  \<^verbatim>\<open>submit(func)\<close>: \<^verbatim>\<open>int i = get_random(); work_queues[i].push(std::move(func));\<close>
\<close>

definition submit :: "'t TaskFunc \<Rightarrow> nat \<Rightarrow> 't ThreadPool \<Rightarrow> 't ThreadPool option" where
  "submit func i p =
     (if i \<notin> get_random p then None
      else case work_queues p of
        None \<Rightarrow> None
      | Some qs \<Rightarrow>
          (case push func (qs ! i) of
             Blocks \<Rightarrow> None
           | Returns q \<Rightarrow> Some (p\<lparr>work_queues := Some (qs[i := q])\<rparr>)))"

definition set_pc :: "nat \<Rightarrow> 't worker_pc \<Rightarrow> 't ThreadPool \<Rightarrow> 't ThreadPool" where
  "set_pc idx c p = p\<lparr>threads := (threads p)[idx := (threads p ! idx)\<lparr>pc := c\<rparr>]\<rparr>"

text \<open>
  One action of \<^verbatim>\<open>worker(token, idx)\<close>; \<open>r\<close> is what \<^verbatim>\<open>get_random\<close> returns when the action
  is the steal. The draw touches nothing but the generator, so it is one action with
  the \<^verbatim>\<open>try_steal\<close> it feeds. Invoking an empty \<^verbatim>\<open>std::function\<close> throws \<^verbatim>\<open>std::bad_function_call\<close> out
  of the thread function, which terminates the process.
\<close>

definition worker :: "nat \<Rightarrow> nat \<Rightarrow> 't ThreadPool \<Rightarrow> 't ThreadPool option" where
  "worker idx r p =
     (if \<not> idx < length (threads p) then None
      else case pc (threads p ! idx) of
        AtLoopTop \<Rightarrow>
          Some (set_pc idx (if stop_state (threads p ! idx) then Exited else AtTryPop) p)
      | AtTryPop \<Rightarrow>
          (case work_queues p of
             None \<Rightarrow> None
           | Some qs \<Rightarrow>
               (case try_pop (qs ! idx) of
                  (Some task, q) \<Rightarrow> Some (set_pc idx (AtCall task) (p\<lparr>work_queues := Some (qs[idx := q])\<rparr>))
                | (None, q) \<Rightarrow> Some (set_pc idx AtSteal p)))
      | AtCall task \<Rightarrow>
          (case task of
             EmptyFunc \<Rightarrow> Some (p\<lparr>terminated := True\<rparr>)
           | Func t \<Rightarrow> Some (set_pc idx AtLoopTop (p\<lparr>executed := executed p @ [t]\<rparr>)))
      | AtSteal \<Rightarrow>
          (if r \<notin> get_random p then None
           else case work_queues p of
             None \<Rightarrow> None
           | Some qs \<Rightarrow>
               (case try_steal (qs ! r) of
                  (Some task, q) \<Rightarrow> Some (set_pc idx (AtCall task) (p\<lparr>work_queues := Some (qs[r := q])\<rparr>))
                | (None, q) \<Rightarrow> Some (set_pc idx AtWaitPop p)))
      | AtWaitPop \<Rightarrow>
          (case work_queues p of
             None \<Rightarrow> None
           | Some qs \<Rightarrow>
               (case wait_and_pop (qs ! idx) of
                  Blocks \<Rightarrow> None
                | Returns (None, q) \<Rightarrow> Some (set_pc idx Exited p)
                | Returns (Some task, q) \<Rightarrow>
                    Some (set_pc idx (AtGuardedCall task) (p\<lparr>work_queues := Some (qs[idx := q])\<rparr>))))
      | AtGuardedCall task \<Rightarrow>
          (case task of
             EmptyFunc \<Rightarrow> Some (set_pc idx AtLoopTop p)
           | Func t \<Rightarrow> Some (set_pc idx AtLoopTop (p\<lparr>executed := executed p @ [t]\<rparr>)))
      | Exited \<Rightarrow> None)"

text \<open>
  One action of the thread destroying the pool. \<^verbatim>\<open>stop_source_.request_stop()\<close>; then
  \<^verbatim>\<open>stop_workers\<close> closes queue \<open>i\<close> for each \<open>i < thread_count\<close>; the body ends; the queue
  array is deleted; then each \<^verbatim>\<open>jthread\<close> in turn gets \<^verbatim>\<open>request_stop()\<close> and \<^verbatim>\<open>join()\<close>,
  which returns once its worker has left \<^verbatim>\<open>worker\<close>. The vector's elements are taken in
  index order here; nothing below depends on the order among them.
\<close>

definition destroy :: "'t ThreadPool \<Rightarrow> 't ThreadPool option" where
  "destroy p =
     (case dtor p of
        Alive \<Rightarrow> Some (p\<lparr>stop_source_m := True, dtor := AtStopWorkers 0\<rparr>)
      | AtStopWorkers i \<Rightarrow>
          (if i < thread_count p then
             (case work_queues p of
                None \<Rightarrow> None
              | Some qs \<Rightarrow>
                  Some (p\<lparr>work_queues := Some (qs[i := close (qs ! i)]), dtor := AtStopWorkers (i + 1)\<rparr>))
           else Some (p\<lparr>dtor := AtDestroyQueues\<rparr>))
      | AtDestroyQueues \<Rightarrow> Some (p\<lparr>work_queues := None, dtor := AtStopThread 0\<rparr>)
      | AtStopThread k \<Rightarrow>
          (if k < length (threads p) then
             Some (p\<lparr>threads := (threads p)[k := (threads p ! k)\<lparr>stop_state := True\<rparr>],
                    dtor := AtJoinThread k\<rparr>)
           else Some (p\<lparr>dtor := Destroyed\<rparr>))
      | AtJoinThread k \<Rightarrow>
          (if pc (threads p ! k) = Exited then Some (p\<lparr>dtor := AtStopThread (k + 1)\<rparr>) else None)
      | Destroyed \<Rightarrow> None)"

text \<open>
  The events of a run: a client's \<^verbatim>\<open>submit\<close> completes on the queue drawn for it, worker
  \<open>idx\<close> acts, the destroying thread acts. A run is a sequence of events, in the order
  in which the actions take their locks.
\<close>

datatype 't event = Submit "'t TaskFunc" nat | Work nat nat | Destroy

fun step :: "'t event \<Rightarrow> 't ThreadPool \<Rightarrow> 't ThreadPool option" where
  "step e p =
     (if terminated p then None
      else case e of
        Submit func i \<Rightarrow> submit func i p
      | Work idx r \<Rightarrow> worker idx r p
      | Destroy \<Rightarrow> destroy p)"

fun run :: "'t event list \<Rightarrow> 't ThreadPool \<Rightarrow> 't ThreadPool option" where
  "run [] p = Some p"
| "run (e # es) p = (case step e p of None \<Rightarrow> None | Some p' \<Rightarrow> run es p')"

text \<open>The callables handed to \<^verbatim>\<open>submit\<close> in a run, and what can be seen of a pool.\<close>

fun submitted :: "'t event list \<Rightarrow> 't TaskFunc list" where
  "submitted [] = []"
| "submitted (Submit func i # es) = func # submitted es"
| "submitted (e # es) = submitted es"

definition observe ::
  "'t ThreadPool \<Rightarrow> dtor_pc \<times> bool \<times> (bool \<times> 't worker_pc) list \<times> 't TaskFunc list list option \<times> 't list" where
  "observe p =
     (dtor p, stop_source_m p, map (\<lambda>w. (stop_state w, pc w)) (threads p),
      map_option (map deque_m) (work_queues p), executed p)"

text \<open>
  Where a callable can be: in the hands of a worker that has taken it from a queue and
  has not finished with it (\<open>held\<close>), or in a queue (\<open>queued\<close>). \<open>accounted\<close> adds the
  callables whose bodies have run. \<open>well_formed\<close> says that there are \<^verbatim>\<open>thread_count\<close> workers
  and, while the queue array exists, \<^verbatim>\<open>thread_count\<close> queues.
\<close>

fun in_hand :: "'t worker_pc \<Rightarrow> 't TaskFunc multiset" where
  "in_hand (AtCall task) = {#task#}"
| "in_hand (AtGuardedCall task) = {#task#}"
| "in_hand c = {#}"

definition held :: "'t ThreadPool \<Rightarrow> 't TaskFunc multiset" where
  "held p = (\<Sum>w\<leftarrow>threads p. in_hand (pc w))"

definition queued :: "'t ThreadPool \<Rightarrow> 't TaskFunc multiset" where
  "queued p = (case work_queues p of None \<Rightarrow> {#} | Some qs \<Rightarrow> (\<Sum>q\<leftarrow>qs. mset (deque_m q)))"

definition accounted :: "'t ThreadPool \<Rightarrow> 't TaskFunc multiset" where
  "accounted p = mset (map Func (executed p)) + held p + queued p"

definition well_formed :: "'t ThreadPool \<Rightarrow> bool" where
  "well_formed p \<longleftrightarrow> length (threads p) = thread_count p
     \<and> map_option length (work_queues p) \<in> {None, Some (thread_count p)}"

text \<open>
  How many \<^verbatim>\<open>jthread\<close>s the destructor has joined so far, and the statement that the
  workers below an index have left \<^verbatim>\<open>worker\<close>.
\<close>

definition joined :: "'t ThreadPool \<Rightarrow> nat" where
  "joined p = (case dtor p of AtStopThread k \<Rightarrow> k | AtJoinThread k \<Rightarrow> k
     | Destroyed \<Rightarrow> length (threads p) | _ \<Rightarrow> 0)"

definition exited_below :: "nat \<Rightarrow> 't ThreadPool \<Rightarrow> bool" where
  "exited_below k p \<longleftrightarrow> (\<forall>i<k. i < length (threads p) \<longrightarrow> pc (threads p ! i) = Exited)"

section \<open>Properties of the deque\<close>

text \<open>
  C2. On an empty, open deque with room for three elements, pushing \<open>A\<close>, \<open>B\<close>, \<open>C\<close> in
  that order and then calling \<^verbatim>\<open>try_pop\<close> three times yields \<open>C\<close>, \<open>B\<close>, \<open>A\<close>; calling
  \<^verbatim>\<open>try_steal\<close> three times on the same filled deque yields \<open>A\<close>, \<open>B\<close>, \<open>C\<close>. Either way
  the deque is empty again afterwards.
\<close>

theorem lifo_pop_fifo_steal:
  assumes "3 \<le> n"
  shows "push A (ThreadSafeDeque_ctor n) = Returns \<lparr>deque_m = [A], max_size_m = n, done_m = False\<rparr>
       \<and> push B \<lparr>deque_m = [A], max_size_m = n, done_m = False\<rparr>
           = Returns \<lparr>deque_m = [A, B], max_size_m = n, done_m = False\<rparr>
       \<and> push C \<lparr>deque_m = [A, B], max_size_m = n, done_m = False\<rparr>
           = Returns \<lparr>deque_m = [A, B, C], max_size_m = n, done_m = False\<rparr>
       \<and> try_pop \<lparr>deque_m = [A, B, C], max_size_m = n, done_m = False\<rparr>
           = (Some C, \<lparr>deque_m = [A, B], max_size_m = n, done_m = False\<rparr>)
       \<and> try_pop \<lparr>deque_m = [A, B], max_size_m = n, done_m = False\<rparr>
           = (Some B, \<lparr>deque_m = [A], max_size_m = n, done_m = False\<rparr>)
       \<and> try_pop \<lparr>deque_m = [A], max_size_m = n, done_m = False\<rparr>
           = (Some A, ThreadSafeDeque_ctor n)
       \<and> try_steal \<lparr>deque_m = [A, B, C], max_size_m = n, done_m = False\<rparr>
           = (Some A, \<lparr>deque_m = [B, C], max_size_m = n, done_m = False\<rparr>)
       \<and> try_steal \<lparr>deque_m = [B, C], max_size_m = n, done_m = False\<rparr>
           = (Some B, \<lparr>deque_m = [C], max_size_m = n, done_m = False\<rparr>)
       \<and> try_steal \<lparr>deque_m = [C], max_size_m = n, done_m = False\<rparr>
           = (Some C, ThreadSafeDeque_ctor n)"
  using assms by (simp add: ThreadSafeDeque_ctor_def push_def try_pop_def try_steal_def)

theorem lifo_pop_fifo_steal_witness:
  "(3::nat) \<le> 50
   \<and> push (1::nat) ThreadSafeDeque_default = Returns \<lparr>deque_m = [1], max_size_m = 50, done_m = False\<rparr>
   \<and> try_pop \<lparr>deque_m = [1, 2, 3::nat], max_size_m = 50, done_m = False\<rparr>
       = (Some 3, \<lparr>deque_m = [1, 2], max_size_m = 50, done_m = False\<rparr>)
   \<and> try_steal \<lparr>deque_m = [1, 2, 3::nat], max_size_m = 50, done_m = False\<rparr>
       = (Some 1, \<lparr>deque_m = [2, 3], max_size_m = 50, done_m = False\<rparr>)"
  using lifo_pop_fifo_steal [of 50 "1::nat" 2 3] by (simp add: ThreadSafeDeque_default_def)

text \<open>
  The capacity invariant: no more than \<open>max_size_m\<close> elements are stored. It holds after
  construction and every member function keeps it, so it holds of every deque the
  program can reach.
\<close>

lemma ctor_fits: "length (deque_m (ThreadSafeDeque_ctor n)) \<le> max_size_m (ThreadSafeDeque_ctor n)"
  by (simp add: ThreadSafeDeque_ctor_def)

lemma apply_op_max_size: "max_size_m (apply_op x s) = max_size_m s"
  by (cases x) (simp_all add: push_def try_pop_def try_steal_def wait_and_pop_def close_def)

lemma apply_op_fits:
  "length (deque_m s) \<le> max_size_m s \<Longrightarrow> length (deque_m (apply_op x s)) \<le> max_size_m s"
  by (cases x) (auto simp: push_def try_pop_def try_steal_def wait_and_pop_def close_def)

lemma apply_op_done: "done_m s \<Longrightarrow> done_m (apply_op x s)"
  by (cases x) (simp_all add: push_def try_pop_def try_steal_def wait_and_pop_def close_def)

lemma sublist_butlast: "sublist (butlast xs) xs"
  by (metis append_butlast_last_id butlast.simps(1) prefix_def prefix_imp_sublist sublist_Nil_left)

lemma sublist_tl: "sublist (tl xs) xs"
  by (metis list.collapse suffix_ConsI suffix_imp_sublist suffix_order.refl sublist_Nil_left tl_Nil)

lemma apply_op_closed_sublist: "done_m s \<Longrightarrow> sublist (deque_m (apply_op x s)) (deque_m s)"
  by (cases x)
     (simp_all add: push_def try_pop_def try_steal_def wait_and_pop_def close_def
        sublist_butlast sublist_tl)

lemma run_ops_max_size: "max_size_m (run_ops xs s) = max_size_m s"
  by (induction xs arbitrary: s) (simp_all add: apply_op_max_size)

lemma run_ops_fits:
  "length (deque_m s) \<le> max_size_m s \<Longrightarrow> length (deque_m (run_ops xs s)) \<le> max_size_m s"
proof (induction xs arbitrary: s)
  case Nil
  then show ?case by simp
next
  case (Cons x xs)
  have "length (deque_m (apply_op x s)) \<le> max_size_m (apply_op x s)"
    using Cons.prems by (simp add: apply_op_fits apply_op_max_size)
  from Cons.IH [OF this] show ?case by (simp add: apply_op_max_size)
qed

lemma run_ops_done: "done_m s \<Longrightarrow> done_m (run_ops xs s)"
  by (induction xs arbitrary: s) (simp_all add: apply_op_done)

lemma run_ops_closed_sublist: "done_m s \<Longrightarrow> sublist (deque_m (run_ops xs s)) (deque_m s)"
proof (induction xs arbitrary: s)
  case Nil
  then show ?case by simp
next
  case (Cons x xs)
  have "sublist (deque_m (run_ops xs (apply_op x s))) (deque_m (apply_op x s))"
    using Cons by (simp add: apply_op_done)
  moreover have "sublist (deque_m (apply_op x s)) (deque_m s)"
    using Cons.prems by (rule apply_op_closed_sublist)
  ultimately show ?case by (auto intro: sublist_order.order_trans)
qed

text \<open>
  C3. On a deque within its capacity, \<^verbatim>\<open>push\<close> blocks exactly when the deque holds
  \<open>max_size_m\<close> elements and is not closed. A call that does not block returns the deque
  unchanged when it is closed (the value is stored nowhere, and the only outcomes are
  blocking and returning: there is no error), and returns it with the value appended at
  the back when it is open.
\<close>

theorem push_contract:
  assumes "length (deque_m s) \<le> max_size_m s"
  shows "(push v s = Blocks \<longleftrightarrow> length (deque_m s) = max_size_m s \<and> \<not> done_m s)
       \<and> (done_m s \<longrightarrow> push v s = Returns s)
       \<and> (\<not> done_m s \<and> length (deque_m s) \<noteq> max_size_m s
            \<longrightarrow> push v s = Returns (s\<lparr>deque_m := deque_m s @ [v]\<rparr>))"
  using assms by (auto simp: push_def)

theorem push_contract_witness:
  "push (7::nat) \<lparr>deque_m = [1, 2], max_size_m = 2, done_m = False\<rparr> = Blocks
   \<and> push (7::nat) \<lparr>deque_m = [1, 2], max_size_m = 2, done_m = True\<rparr>
       = Returns \<lparr>deque_m = [1, 2], max_size_m = 2, done_m = True\<rparr>
   \<and> push (7::nat) \<lparr>deque_m = [1], max_size_m = 2, done_m = False\<rparr>
       = Returns \<lparr>deque_m = [1, 7], max_size_m = 2, done_m = False\<rparr>"
  using push_contract [of "\<lparr>deque_m = [1, 2], max_size_m = 2, done_m = False\<rparr>" "7::nat"]
    push_contract [of "\<lparr>deque_m = [1, 2], max_size_m = 2, done_m = True\<rparr>" "7::nat"]
    push_contract [of "\<lparr>deque_m = [1], max_size_m = 2, done_m = False\<rparr>" "7::nat"]
  by simp

text \<open>
  C4. \<^verbatim>\<open>wait_and_pop\<close> blocks exactly when the deque is empty and not closed. It returns
  the empty result exactly when the deque is closed and empty, leaving it unchanged.
  On a non-empty deque it returns what \<^verbatim>\<open>try_pop\<close> returns there: the back element,
  removed.
\<close>

theorem wait_and_pop_contract:
  "(wait_and_pop s = Blocks \<longleftrightarrow> deque_m s = [] \<and> \<not> done_m s)
   \<and> ((\<exists>s'. wait_and_pop s = Returns (None, s')) \<longleftrightarrow> deque_m s = [] \<and> done_m s)
   \<and> (deque_m s = [] \<and> done_m s \<longrightarrow> wait_and_pop s = Returns (None, s))
   \<and> (deque_m s \<noteq> [] \<longrightarrow>
        wait_and_pop s = Returns (try_pop s)
        \<and> try_pop s = (Some (last (deque_m s)), s\<lparr>deque_m := butlast (deque_m s)\<rparr>))"
  by (auto simp: wait_and_pop_def try_pop_def)

theorem wait_and_pop_contract_witness:
  "wait_and_pop \<lparr>deque_m = [] :: nat list, max_size_m = 2, done_m = False\<rparr> = Blocks
   \<and> wait_and_pop \<lparr>deque_m = [] :: nat list, max_size_m = 2, done_m = True\<rparr>
       = Returns (None, \<lparr>deque_m = [], max_size_m = 2, done_m = True\<rparr>)
   \<and> wait_and_pop \<lparr>deque_m = [4, 5::nat], max_size_m = 2, done_m = True\<rparr>
       = Returns (Some 5, \<lparr>deque_m = [4], max_size_m = 2, done_m = True\<rparr>)"
  using wait_and_pop_contract [of "\<lparr>deque_m = [] :: nat list, max_size_m = 2, done_m = False\<rparr>"]
    wait_and_pop_contract [of "\<lparr>deque_m = [] :: nat list, max_size_m = 2, done_m = True\<rparr>"]
    wait_and_pop_contract [of "\<lparr>deque_m = [4, 5::nat], max_size_m = 2, done_m = True\<rparr>"]
  by simp

text \<open>
  C5. Let \<open>s\<close> be any deque reached from construction with capacity \<open>n\<close> by member
  function calls \<open>pre\<close>, and let further calls \<open>ops\<close> follow. Then the capacity is still
  \<open>n\<close> and at most \<open>n\<close> elements are stored; and if \<open>s\<close> was closed, the deque is still
  closed after \<open>ops\<close> and its contents are a contiguous part of the contents of \<open>s\<close>:
  nothing was added.
\<close>

theorem deque_invariant:
  "max_size_m (run_ops ops (run_ops pre (ThreadSafeDeque_ctor n))) = n
   \<and> length (deque_m (run_ops ops (run_ops pre (ThreadSafeDeque_ctor n)))) \<le> n
   \<and> (done_m (run_ops pre (ThreadSafeDeque_ctor n)) \<longrightarrow>
        done_m (run_ops ops (run_ops pre (ThreadSafeDeque_ctor n)))
        \<and> sublist (deque_m (run_ops ops (run_ops pre (ThreadSafeDeque_ctor n))))
            (deque_m (run_ops pre (ThreadSafeDeque_ctor n))))"
proof -
  let ?c = "ThreadSafeDeque_ctor n :: 'a ThreadSafeDeque"
  have n: "max_size_m ?c = n" by (simp add: ThreadSafeDeque_ctor_def)
  have "length (deque_m (run_ops pre ?c)) \<le> max_size_m (run_ops pre ?c)"
    using run_ops_fits [OF ctor_fits, of pre n] by (simp add: run_ops_max_size)
  from run_ops_fits [OF this, of ops]
  have "length (deque_m (run_ops ops (run_ops pre ?c))) \<le> n"
    by (simp add: run_ops_max_size n)
  then show ?thesis
    by (simp add: run_ops_max_size n run_ops_done run_ops_closed_sublist)
qed

theorem deque_invariant_witness:
  "done_m (run_ops [Push 1, Push 2, Push 3, Close] (ThreadSafeDeque_ctor 2 :: nat ThreadSafeDeque))
   \<and> deque_m (run_ops [Push 1, Push 2, Push 3, Close] (ThreadSafeDeque_ctor 2 :: nat ThreadSafeDeque)) = [1, 2]
   \<and> done_m (run_ops [Push 4, TrySteal, Push 5]
        (run_ops [Push 1, Push 2, Push 3, Close] (ThreadSafeDeque_ctor 2 :: nat ThreadSafeDeque)))
   \<and> sublist (deque_m (run_ops [Push 4, TrySteal, Push 5]
        (run_ops [Push 1, Push 2, Push 3, Close] (ThreadSafeDeque_ctor 2 :: nat ThreadSafeDeque))))
      [1, 2]"
  using deque_invariant [of "[Push 4, TrySteal, Push (5::nat)]" "[Push 1, Push 2, Push 3, Close]" 2]
  by (simp add: ThreadSafeDeque_ctor_def push_def close_def try_steal_def)

text \<open>
  C8. \<^verbatim>\<open>close\<close> is idempotent: any positive number of calls leaves the deque as one call
  does. A call changes nothing but the closed flag, which it sets, so on a closed deque
  it changes nothing. \<^verbatim>\<open>close\<close> never blocks and has no failing outcome: it is a total
  function from deque to deque.
\<close>

theorem close_idempotent:
  "close (close s) = close s
   \<and> (close ^^ Suc k) s = close s
   \<and> close s = s\<lparr>done_m := True\<rparr>
   \<and> (done_m s \<longrightarrow> close s = s)"
proof -
  have "(close ^^ Suc k) s = close s"
    by (induction k) (simp_all add: close_def)
  then show ?thesis by (simp add: close_def)
qed

theorem close_idempotent_witness:
  "done_m \<lparr>deque_m = [1::nat], max_size_m = 2, done_m = True\<rparr>
   \<and> close \<lparr>deque_m = [1::nat], max_size_m = 2, done_m = True\<rparr>
       = \<lparr>deque_m = [1::nat], max_size_m = 2, done_m = True\<rparr>"
  using close_idempotent [of "\<lparr>deque_m = [1::nat], max_size_m = 2, done_m = True\<rparr>"]
  by simp

text \<open>
  C10. \<^verbatim>\<open>close\<close> leaves the stored sequence and the capacity as they are. \<^verbatim>\<open>try_pop\<close>
  and \<^verbatim>\<open>try_steal\<close> do not read the closed flag: on a deque with the flag set to any
  value they return the same element and leave the same sequence as on the deque
  itself. So on a closed non-empty deque \<^verbatim>\<open>try_pop\<close> removes and returns the back
  element and \<^verbatim>\<open>try_steal\<close> the front element.
\<close>

theorem close_keeps_tasks:
  "deque_m (close s) = deque_m s \<and> max_size_m (close s) = max_size_m s
   \<and> try_pop (s\<lparr>done_m := b\<rparr>) = (fst (try_pop s), (snd (try_pop s))\<lparr>done_m := b\<rparr>)
   \<and> try_steal (s\<lparr>done_m := b\<rparr>) = (fst (try_steal s), (snd (try_steal s))\<lparr>done_m := b\<rparr>)
   \<and> try_pop (close s) = (fst (try_pop s), close (snd (try_pop s)))
   \<and> try_steal (close s) = (fst (try_steal s), close (snd (try_steal s)))
   \<and> (deque_m s \<noteq> [] \<longrightarrow>
        try_pop (close s) = (Some (last (deque_m s)), close (s\<lparr>deque_m := butlast (deque_m s)\<rparr>))
        \<and> try_steal (close s) = (Some (hd (deque_m s)), close (s\<lparr>deque_m := tl (deque_m s)\<rparr>)))"
  by (simp add: close_def try_pop_def try_steal_def)

theorem close_keeps_tasks_witness:
  "deque_m \<lparr>deque_m = [1, 2, 3::nat], max_size_m = 5, done_m = False\<rparr> \<noteq> []
   \<and> try_pop (close \<lparr>deque_m = [1, 2, 3::nat], max_size_m = 5, done_m = False\<rparr>)
       = (Some 3, \<lparr>deque_m = [1, 2], max_size_m = 5, done_m = True\<rparr>)
   \<and> try_steal (close \<lparr>deque_m = [1, 2, 3::nat], max_size_m = 5, done_m = False\<rparr>)
       = (Some 1, \<lparr>deque_m = [2, 3], max_size_m = 5, done_m = True\<rparr>)"
  using close_keeps_tasks [of "\<lparr>deque_m = [1, 2, 3::nat], max_size_m = 5, done_m = False\<rparr>" True]
  by (simp add: close_def try_pop_def try_steal_def)

section \<open>Properties of the pool\<close>

text \<open>
  C9. The constructor takes nothing but the hardware's concurrency, from which the worker
  count follows; it has no argument for the capacity. It creates one worker and one
  queue per index, every queue empty, open and of capacity 50.
\<close>

theorem pool_construction:
  "thread_count (ThreadPool_ctor hw :: 't ThreadPool) = nat (max 1 (sint hw))
   \<and> length (threads (ThreadPool_ctor hw :: 't ThreadPool)) = nat (max 1 (sint hw))
   \<and> work_queues (ThreadPool_ctor hw :: 't ThreadPool)
       = Some (replicate (nat (max 1 (sint hw))) \<lparr>deque_m = [], max_size_m = 50, done_m = False\<rparr>)"
  by (simp add: ThreadPool_ctor_def Let_def ThreadSafeDeque_default_def ThreadSafeDeque_ctor_def)

lemma sum_list_mset_update:
  fixes f :: "'a \<Rightarrow> 'b multiset"
  shows "i < length xs \<Longrightarrow> (\<Sum>x\<leftarrow>xs[i := y]. f x) + f (xs ! i) = (\<Sum>x\<leftarrow>xs. f x) + f y"
proof (induction xs arbitrary: i)
  case Nil
  then show ?case by simp
next
  case (Cons a xs)
  then show ?case by (cases i) (simp_all add: ac_simps)
qed

lemma mset_butlast_last: "xs \<noteq> [] \<Longrightarrow> mset (butlast xs) + {#last xs#} = mset xs"
proof -
  assume "xs \<noteq> []"
  then have "mset xs = mset (butlast xs @ [last xs])" by simp
  then show ?thesis by (simp only: mset_append mset.simps add_mset_add_single [symmetric] union_mset_add_mset_right add.right_neutral)
qed

lemma mset_tl_hd: "xs \<noteq> [] \<Longrightarrow> mset (tl xs) + {#hd xs#} = mset xs"
  by (cases xs) simp_all

lemma held_set_pc:
  "idx < length (threads p) \<Longrightarrow>
   held (set_pc idx c p) + in_hand (pc (threads p ! idx)) = held p + in_hand c"
  using sum_list_mset_update [of idx "threads p" "\<lambda>w. in_hand (pc w)" "(threads p ! idx)\<lparr>pc := c\<rparr>"]
  by (simp add: held_def set_pc_def)


lemma queued_update:
  assumes "work_queues p = Some qs" "i < length qs"
  shows "queued (p\<lparr>work_queues := Some (qs[i := q])\<rparr>) + mset (deque_m (qs ! i))
         = queued p + mset (deque_m q)"
  using assms sum_list_mset_update [of i qs "\<lambda>q. mset (deque_m q)" q]
  by (simp add: queued_def)

lemma queued_pop:
  assumes "work_queues p = Some qs" "i < length qs" "try_pop (qs ! i) = (Some task, q)"
  shows "queued p = queued (p\<lparr>work_queues := Some (qs[i := q])\<rparr>) + {#task#}"
proof -
  let ?d = "deque_m (qs ! i)"
  from assms(3) have ne: "?d \<noteq> []" and t: "task = last ?d" and q: "deque_m q = butlast ?d"
    by (auto simp: try_pop_def split: if_splits)
  have "queued (p\<lparr>work_queues := Some (qs[i := q])\<rparr>) + (mset (butlast ?d) + {#last ?d#})
        = queued p + mset (butlast ?d)"
    using queued_update [OF assms(1,2), of q] by (simp only: mset_butlast_last [OF ne] q)
  then have "(queued (p\<lparr>work_queues := Some (qs[i := q])\<rparr>) + {#task#}) + mset (butlast ?d)
        = queued p + mset (butlast ?d)"
    by (simp only: t ac_simps)
  then show ?thesis by (simp only: add_right_cancel)
qed

lemma queued_steal:
  assumes "work_queues p = Some qs" "i < length qs" "try_steal (qs ! i) = (Some task, q)"
  shows "queued p = queued (p\<lparr>work_queues := Some (qs[i := q])\<rparr>) + {#task#}"
proof -
  let ?d = "deque_m (qs ! i)"
  from assms(3) have ne: "?d \<noteq> []" and t: "task = hd ?d" and q: "deque_m q = tl ?d"
    by (auto simp: try_steal_def split: if_splits)
  have "queued (p\<lparr>work_queues := Some (qs[i := q])\<rparr>) + (mset (tl ?d) + {#hd ?d#})
        = queued p + mset (tl ?d)"
    using queued_update [OF assms(1,2), of q] by (simp only: mset_tl_hd [OF ne] q)
  then have "(queued (p\<lparr>work_queues := Some (qs[i := q])\<rparr>) + {#task#}) + mset (tl ?d)
        = queued p + mset (tl ?d)"
    by (simp only: t ac_simps)
  then show ?thesis by (simp only: add_right_cancel)
qed

lemma queued_wait:
  assumes "work_queues p = Some qs" "i < length qs" "wait_and_pop (qs ! i) = Returns (Some task, q)"
  shows "queued p = queued (p\<lparr>work_queues := Some (qs[i := q])\<rparr>) + {#task#}"
proof -
  from assms(3) have "try_pop (qs ! i) = (Some task, q)"
    by (auto simp: wait_and_pop_def try_pop_def split: if_splits)
  from queued_pop [OF assms(1,2) this] show ?thesis .
qed

lemma queued_push:
  assumes "work_queues p = Some qs" "i < length qs" "push func (qs ! i) = Returns q"
  shows "queued (p\<lparr>work_queues := Some (qs[i := q])\<rparr>) \<subseteq># queued p + {#func#}"
proof -
  let ?d = "deque_m (qs ! i)"
  let ?p' = "p\<lparr>work_queues := Some (qs[i := q])\<rparr>"
  from assms(3) consider "deque_m q = ?d" | "deque_m q = ?d @ [func]"
    by (auto simp: push_def split: if_splits)
  then show ?thesis
  proof cases
    case 1
    with queued_update [OF assms(1,2), of q] have "queued ?p' = queued p" by simp
    then show ?thesis by simp
  next
    case 2
    with queued_update [OF assms(1,2), of q]
    have "queued ?p' + mset ?d = (queued p + {#func#}) + mset ?d" by (simp add: ac_simps)
    then have "queued ?p' = queued p + {#func#}" by (simp only: add_right_cancel)
    then show ?thesis by simp
  qed
qed

lemma queued_close:
  assumes "work_queues p = Some qs" "i < length qs"
  shows "queued (p\<lparr>work_queues := Some (qs[i := close (qs ! i)])\<rparr>) = queued p"
  using queued_update [OF assms, of "close (qs ! i)"] by (simp add: close_def)


lemma set_pc_fields [simp]:
  "executed (set_pc idx c p) = executed p"
  "work_queues (set_pc idx c p) = work_queues p"
  "thread_count (set_pc idx c p) = thread_count p"
  "length (threads (set_pc idx c p)) = length (threads p)"
  "queued (set_pc idx c p) = queued p"
  by (simp_all add: set_pc_def queued_def)

lemma held_fields [simp]:
  "held (p\<lparr>work_queues := x\<rparr>) = held p"
  "held (p\<lparr>executed := y\<rparr>) = held p"
  "queued (p\<lparr>executed := y\<rparr>) = queued p"
  by (simp_all add: held_def queued_def)

lemma wf_set_pc [simp]: "well_formed (set_pc idx c p) = well_formed p"
  by (simp add: well_formed_def)

lemma wf_queue_update:
  "well_formed p \<Longrightarrow> work_queues p = Some qs \<Longrightarrow> well_formed (p\<lparr>work_queues := Some (qs[i := q])\<rparr>)"
  by (simp add: well_formed_def)

lemma held_gain:
  assumes "idx < length (threads p)" "in_hand (pc (threads p ! idx)) = {#}"
  shows "held (set_pc idx c p) = held p + in_hand c"
  using held_set_pc [OF assms(1), of c] assms(2) by simp

lemma held_lose:
  assumes "idx < length (threads p)" "in_hand c = {#}"
  shows "held p = held (set_pc idx c p) + in_hand (pc (threads p ! idx))"
  using held_set_pc [OF assms(1), of c] assms(2) by simp

lemma accounted_move:
  assumes "idx < length (threads p)" "in_hand (pc (threads p ! idx)) = {#}" "in_hand c = {#}"
  shows "accounted (set_pc idx c p) = accounted p"
  using held_gain [OF assms(1,2), of c] assms(3) by (simp add: accounted_def)

lemma accounted_take:
  assumes "idx < length (threads p)" "in_hand (pc (threads p ! idx)) = {#}"
    and "queued p = queued (p\<lparr>work_queues := x\<rparr>) + {#task#}" "in_hand c = {#task#}"
  shows "accounted (set_pc idx c (p\<lparr>work_queues := x\<rparr>)) = accounted p"
proof -
  have "held (set_pc idx c (p\<lparr>work_queues := x\<rparr>)) = held p + {#task#}"
    using held_gain [of idx "p\<lparr>work_queues := x\<rparr>" c] assms(1,2,4) by simp
  then show ?thesis using assms(3) by (simp add: accounted_def)
qed

lemma accounted_call:
  assumes "idx < length (threads p)" "in_hand (pc (threads p ! idx)) = {#Func t#}"
  shows "accounted (set_pc idx AtLoopTop (p\<lparr>executed := executed p @ [t]\<rparr>)) = accounted p"
proof -
  have "held p = held (set_pc idx AtLoopTop (p\<lparr>executed := executed p @ [t]\<rparr>)) + {#Func t#}"
    using held_lose [of idx "p\<lparr>executed := executed p @ [t]\<rparr>" AtLoopTop] assms by simp
  then show ?thesis by (simp add: accounted_def)
qed

lemma accounted_drop:
  assumes "idx < length (threads p)" "in_hand c = {#}"
  shows "accounted (set_pc idx c p) \<subseteq># accounted p"
  using held_lose [OF assms] by (simp add: accounted_def)

lemma worker_accounted:
  assumes "well_formed p" "worker idx r p = Some p'"
  shows "well_formed p' \<and> accounted p' \<subseteq># accounted p"
proof -
  from assms(2) have idx: "idx < length (threads p)"
    by (auto simp: worker_def split: if_splits)
  show ?thesis
  proof (cases "pc (threads p ! idx)")
    case AtLoopTop
    with assms idx show ?thesis
      by (auto simp: worker_def accounted_move)
  next
    case AtTryPop
    with assms(2) idx obtain qs where qs: "work_queues p = Some qs"
      by (auto simp: worker_def split: option.splits)
    from assms(1) qs idx have i: "idx < length qs" by (simp add: well_formed_def)
    show ?thesis
    proof (cases "fst (try_pop (qs ! idx))")
      case None
      with assms AtTryPop idx qs show ?thesis
        by (auto simp: worker_def accounted_move split: prod.splits)
    next
      case (Some task)
      then obtain q where tp: "try_pop (qs ! idx) = (Some task, q)"
        by (cases "try_pop (qs ! idx)") auto
      from assms(2) AtTryPop idx qs tp
      have p': "p' = set_pc idx (AtCall task) (p\<lparr>work_queues := Some (qs[idx := q])\<rparr>)"
        by (simp add: worker_def)
      from accounted_take [OF idx _ queued_pop [OF qs i tp], of "AtCall task"] AtTryPop
      have "accounted p' = accounted p" by (simp add: p')
      with assms(1) qs show ?thesis by (simp add: p' wf_queue_update)
    qed
  next
    case (AtCall task)
    show ?thesis
    proof (cases task)
      case EmptyFunc
      with assms AtCall idx show ?thesis
        by (auto simp: worker_def well_formed_def accounted_def held_def queued_def)
    next
      case (Func t)
      with assms(2) AtCall idx
      have p': "p' = set_pc idx AtLoopTop (p\<lparr>executed := executed p @ [t]\<rparr>)"
        by (simp add: worker_def)
      from accounted_call [OF idx, of t] AtCall Func have "accounted p' = accounted p"
        by (simp add: p')
      with assms(1) show ?thesis by (simp add: p' well_formed_def)
    qed
  next
    case AtSteal
    with assms(2) idx obtain qs where qs: "work_queues p = Some qs" and r: "r < thread_count p"
      by (auto simp: worker_def get_random_def split: option.splits if_splits)
    from assms(1) qs r have i: "r < length qs" by (simp add: well_formed_def)
    show ?thesis
    proof (cases "fst (try_steal (qs ! r))")
      case None
      with assms AtSteal idx qs r show ?thesis
        by (auto simp: worker_def get_random_def accounted_move split: prod.splits)
    next
      case (Some task)
      then obtain q where tp: "try_steal (qs ! r) = (Some task, q)"
        by (cases "try_steal (qs ! r)") auto
      from assms(2) AtSteal idx qs tp r
      have p': "p' = set_pc idx (AtCall task) (p\<lparr>work_queues := Some (qs[r := q])\<rparr>)"
        by (simp add: worker_def get_random_def)
      from accounted_take [OF idx _ queued_steal [OF qs i tp], of "AtCall task"] AtSteal
      have "accounted p' = accounted p" by (simp add: p')
      with assms(1) qs show ?thesis by (simp add: p' wf_queue_update)
    qed
  next
    case AtWaitPop
    with assms(2) idx obtain qs where qs: "work_queues p = Some qs"
      by (auto simp: worker_def split: option.splits)
    from assms(1) qs idx have i: "idx < length qs" by (simp add: well_formed_def)
    from assms(2) AtWaitPop idx qs obtain res q where w: "wait_and_pop (qs ! idx) = Returns (res, q)"
      by (auto simp: worker_def split: outcome.splits)
    show ?thesis
    proof (cases res)
      case None
      with assms AtWaitPop idx qs w show ?thesis
        by (auto simp: worker_def accounted_move)
    next
      case (Some task)
      with assms(2) AtWaitPop idx qs w
      have p': "p' = set_pc idx (AtGuardedCall task) (p\<lparr>work_queues := Some (qs[idx := q])\<rparr>)"
        by (simp add: worker_def)
      from w Some have w': "wait_and_pop (qs ! idx) = Returns (Some task, q)" by simp
      from accounted_take [OF idx _ queued_wait [OF qs i w'], of "AtGuardedCall task"] AtWaitPop
      have "accounted p' = accounted p" by (simp add: p')
      with assms(1) qs show ?thesis by (simp add: p' wf_queue_update)
    qed
  next
    case (AtGuardedCall task)
    show ?thesis
    proof (cases task)
      case EmptyFunc
      with assms AtGuardedCall idx show ?thesis
        by (auto simp: worker_def accounted_drop)
    next
      case (Func t)
      with assms(2) AtGuardedCall idx
      have p': "p' = set_pc idx AtLoopTop (p\<lparr>executed := executed p @ [t]\<rparr>)"
        by (simp add: worker_def)
      from accounted_call [OF idx, of t] AtGuardedCall Func have "accounted p' = accounted p"
        by (simp add: p')
      with assms(1) show ?thesis by (simp add: p' well_formed_def)
    qed
  next
    case Exited
    with assms(2) idx show ?thesis by (simp add: worker_def)
  qed
qed


lemma submit_accounted:
  assumes "well_formed p" "submit func i p = Some p'"
  shows "well_formed p' \<and> accounted p' \<subseteq># accounted p + {#func#}"
proof -
  from assms(2) obtain qs q where qs: "work_queues p = Some qs" and i: "i < thread_count p"
    and q: "push func (qs ! i) = Returns q" and p': "p' = p\<lparr>work_queues := Some (qs[i := q])\<rparr>"
    by (auto simp: submit_def get_random_def split: if_splits option.splits outcome.splits)
  from assms(1) qs i have "i < length qs" by (simp add: well_formed_def)
  from queued_push [OF qs this q] have "queued p' \<subseteq># queued p + {#func#}" by (simp add: p')
  then have "accounted p' \<subseteq># accounted p + {#func#}"
    by (simp add: accounted_def p' ac_simps)
  with assms(1) qs show ?thesis by (simp add: p' wf_queue_update)
qed

lemma held_stop_state:
  "held (p\<lparr>threads := (threads p)[k := (threads p ! k)\<lparr>stop_state := b\<rparr>], dtor := d\<rparr>) = held p"
proof -
  have "map (\<lambda>w. in_hand (pc w)) ((threads p)[k := (threads p ! k)\<lparr>stop_state := b\<rparr>])
        = map (\<lambda>w. in_hand (pc w)) (threads p)"
    by (cases "k < length (threads p)") (auto simp: nth_list_update intro: nth_equalityI)
  then show ?thesis by (simp add: held_def)
qed

lemma destroy_accounted:
  assumes "well_formed p" "destroy p = Some p'"
  shows "well_formed p' \<and> accounted p' \<subseteq># accounted p"
proof (cases "dtor p")
  case Alive
  with assms show ?thesis
    by (auto simp: destroy_def well_formed_def accounted_def held_def queued_def)
next
  case (AtStopWorkers i)
  show ?thesis
  proof (cases "i < thread_count p")
    case True
    with assms(2) AtStopWorkers obtain qs where qs: "work_queues p = Some qs"
      and p': "p' = p\<lparr>work_queues := Some (qs[i := close (qs ! i)]), dtor := AtStopWorkers (i + 1)\<rparr>"
      by (auto simp: destroy_def split: option.splits)
    from assms(1) qs True have "i < length qs" by (simp add: well_formed_def)
    from queued_close [OF qs this] have "queued p' = queued p"
      by (simp add: p' queued_def)
    then have "accounted p' = accounted p" by (simp add: accounted_def p' held_def)
    with assms(1) qs show ?thesis by (simp add: p' well_formed_def)
  next
    case False
    with assms AtStopWorkers show ?thesis
      by (auto simp: destroy_def well_formed_def accounted_def held_def queued_def)
  qed
next
  case AtDestroyQueues
  with assms show ?thesis
    by (auto simp: destroy_def well_formed_def accounted_def held_def queued_def)
next
  case (AtStopThread k)
  show ?thesis
  proof (cases "k < length (threads p)")
    case True
    with assms(2) AtStopThread
    have p': "p' = p\<lparr>threads := (threads p)[k := (threads p ! k)\<lparr>stop_state := True\<rparr>],
                      dtor := AtJoinThread k\<rparr>"
      by (simp add: destroy_def)
    have "accounted p' = accounted p"
      unfolding accounted_def p' held_stop_state by (simp add: queued_def)
    with assms(1) show ?thesis by (simp add: p' well_formed_def)
  next
    case False
    with assms AtStopThread show ?thesis
      by (auto simp: destroy_def well_formed_def accounted_def held_def queued_def)
  qed
next
  case (AtJoinThread k)
  with assms show ?thesis
    by (auto simp: destroy_def well_formed_def accounted_def held_def queued_def split: if_splits)
next
  case Destroyed
  with assms(2) show ?thesis by (simp add: destroy_def)
qed

lemma step_accounted:
  assumes "well_formed p" "step e p = Some p'"
  shows "well_formed p' \<and> accounted p' \<subseteq># accounted p + mset (submitted [e])"
proof (cases e)
  case (Submit func i)
  with assms submit_accounted [of p func i p'] show ?thesis
    by (simp split: if_splits)
next
  case (Work idx r)
  with assms worker_accounted [of p idx r p'] show ?thesis
    by (simp split: if_splits)
next
  case Destroy
  with assms destroy_accounted [of p p'] show ?thesis
    by (simp split: if_splits)
qed

lemma submitted_Cons: "mset (submitted (e # es)) = mset (submitted [e]) + mset (submitted es)"
  by (cases e) simp_all

lemma run_accounted:
  "well_formed p \<Longrightarrow> run es p = Some p' \<Longrightarrow> well_formed p' \<and> accounted p' \<subseteq># accounted p + mset (submitted es)"
proof (induction es arbitrary: p)
  case Nil
  then show ?case by simp
next
  case (Cons e es)
  from Cons.prems(2) obtain p1 where s: "step e p = Some p1" and r: "run es p1 = Some p'"
    by (auto split: option.splits)
  from step_accounted [OF Cons.prems(1) s]
  have wf1: "well_formed p1" and a1: "accounted p1 \<subseteq># accounted p + mset (submitted [e])" by simp_all
  from Cons.IH [OF wf1 r]
  have well_formed': "well_formed p'" and a': "accounted p' \<subseteq># accounted p1 + mset (submitted es)" by simp_all
  from a1 have "accounted p1 + mset (submitted es)
        \<subseteq># accounted p + mset (submitted [e]) + mset (submitted es)"
    by (simp only: mset_subset_eq_mono_add_right_cancel)
  with a' have "accounted p' \<subseteq># accounted p + mset (submitted [e]) + mset (submitted es)"
    by (rule subset_mset.order_trans)
  moreover have "accounted p + mset (submitted [e]) + mset (submitted es)
        = accounted p + mset (submitted (e # es))"
    by (simp only: submitted_Cons [of e es] add.assoc)
  ultimately show ?case using well_formed' by simp
qed

lemma ctor_wf: "well_formed (ThreadPool_ctor hw)"
  by (simp add: well_formed_def ThreadPool_ctor_def Let_def)

lemma sum_list_replicate_empty: "sum_list (replicate n ({#} :: 'a multiset)) = {#}"
  by (induction n) simp_all

lemma ctor_accounted: "accounted (ThreadPool_ctor hw) = {#}"
  by (simp add: accounted_def held_def queued_def ThreadPool_ctor_def Let_def
      ThreadSafeDeque_default_def ThreadSafeDeque_ctor_def sum_list_replicate_empty)

lemma count_executed: "count (image_mset Func (mset xs)) (Func t) = count_list xs t"
  by (induction xs) simp_all

text \<open>
  C7. In every run of a freshly constructed pool, whatever the events and their order,
  the number of times the body of callable \<open>t\<close> has run, plus the number of workers
  holding \<open>t\<close>, plus the number of copies of \<open>t\<close> in the queues, is at most the number of
  \<^verbatim>\<open>submit\<close> calls that passed \<open>t\<close>. So a callable submitted once runs at most once, and
  once a pop or steal has returned it, it is in no queue for another to return.
  The queue calls are atomic here because each holds the mutex of its deque throughout.
\<close>

theorem at_most_once:
  assumes "run es (ThreadPool_ctor hw) = Some p"
  shows "count_list (executed p) t + count (held p) (Func t) + count (queued p) (Func t)
         \<le> count_list (submitted es) (Func t)"
proof -
  from run_accounted [OF ctor_wf assms]
  have "accounted p \<subseteq># mset (submitted es)" by (simp add: ctor_accounted)
  then have "count (accounted p) (Func t) \<le> count (mset (submitted es)) (Func t)"
    by (rule mset_subset_eq_count)
  then show ?thesis
    by (simp add: accounted_def count_mset count_executed)
qed

theorem at_most_once_witness:
  "run [Submit (Func (1::nat)) 0, Work 0 0, Work 0 0, Work 0 0] (ThreadPool_ctor 1)
     = Some \<lparr>stop_source_m = False, threads = [\<lparr>stop_state = False, pc = AtLoopTop\<rparr>],
             work_queues = Some [\<lparr>deque_m = [], max_size_m = 50, done_m = False\<rparr>],
             thread_count = 1, executed = [1], terminated = False, dtor = Alive\<rparr>
   \<and> count_list (executed \<lparr>stop_source_m = False, threads = [\<lparr>stop_state = False, pc = AtLoopTop\<rparr>],
             work_queues = Some [\<lparr>deque_m = [] :: nat TaskFunc list, max_size_m = 50, done_m = False\<rparr>],
             thread_count = 1, executed = [1::nat], terminated = False, dtor = Alive\<rparr>) 1
      \<le> count_list (submitted [Submit (Func (1::nat)) 0, Work 0 0, Work 0 0, Work 0 0]) (Func 1)"
proof -
  have r: "run [Submit (Func (1::nat)) 0, Work 0 0, Work 0 0, Work 0 0] (ThreadPool_ctor 1)
     = Some \<lparr>stop_source_m = False, threads = [\<lparr>stop_state = False, pc = AtLoopTop\<rparr>],
             work_queues = Some [\<lparr>deque_m = [], max_size_m = 50, done_m = False\<rparr>],
             thread_count = 1, executed = [1], terminated = False, dtor = Alive\<rparr>"
    by (simp add: ThreadPool_ctor_def ThreadSafeDeque_default_def ThreadSafeDeque_ctor_def
        submit_def worker_def set_pc_def get_random_def push_def try_pop_def)
  from at_most_once [OF r, of 1] r show ?thesis by simp
qed

text \<open>
  One pass of worker \<open>idx\<close> through its loop with no other thread acting in between,
  from the loop condition: with the worker's own stop requested it leaves the loop; else
  it runs the back element of its own queue; else, that queue being empty, it runs the
  front element of queue \<open>r\<close>, for \<open>r\<close> any value \<^verbatim>\<open>get_random\<close> can return, its own index
  included; else it calls \<^verbatim>\<open>wait_and_pop\<close> on its own queue, where it leaves the loop if
  the queue is closed and blocks if it is open. No other draw \<open>r\<close> can occur.
\<close>

lemma worker_iteration:
  assumes "idx < length (threads p)" "pc (threads p ! idx) = AtLoopTop" "\<not> terminated p"
    and "work_queues p = Some qs"
  shows "stop_state (threads p ! idx) \<Longrightarrow> run [Work idx r1] p = Some (set_pc idx Exited p)"
    and "\<not> stop_state (threads p ! idx) \<Longrightarrow> deque_m (qs ! idx) \<noteq> [] \<Longrightarrow>
         last (deque_m (qs ! idx)) = Func t \<Longrightarrow>
         run [Work idx r1, Work idx r2, Work idx r3] p
           = Some (p\<lparr>work_queues := Some (qs[idx := (qs ! idx)\<lparr>deque_m := butlast (deque_m (qs ! idx))\<rparr>]),
                     executed := executed p @ [t]\<rparr>)"
    and "\<not> stop_state (threads p ! idx) \<Longrightarrow> deque_m (qs ! idx) = [] \<Longrightarrow> r \<in> get_random p \<Longrightarrow>
         deque_m (qs ! r) \<noteq> [] \<Longrightarrow> hd (deque_m (qs ! r)) = Func t \<Longrightarrow>
         run [Work idx r1, Work idx r2, Work idx r, Work idx r3] p
           = Some (p\<lparr>work_queues := Some (qs[r := (qs ! r)\<lparr>deque_m := tl (deque_m (qs ! r))\<rparr>]),
                     executed := executed p @ [t]\<rparr>)"
    and "\<not> stop_state (threads p ! idx) \<Longrightarrow> deque_m (qs ! idx) = [] \<Longrightarrow> r \<in> get_random p \<Longrightarrow>
         deque_m (qs ! r) = [] \<Longrightarrow> done_m (qs ! idx) \<Longrightarrow>
         run [Work idx r1, Work idx r2, Work idx r, Work idx r3] p = Some (set_pc idx Exited p)"
    and "\<not> stop_state (threads p ! idx) \<Longrightarrow> deque_m (qs ! idx) = [] \<Longrightarrow> r \<in> get_random p \<Longrightarrow>
         deque_m (qs ! r) = [] \<Longrightarrow> \<not> done_m (qs ! idx) \<Longrightarrow>
         run [Work idx r1, Work idx r2, Work idx r] p = Some (set_pc idx AtWaitPop p)
         \<and> run [Work idx r1, Work idx r2, Work idx r, Work idx r3] p = None"
    and "\<not> stop_state (threads p ! idx) \<Longrightarrow> deque_m (qs ! idx) = [] \<Longrightarrow> r \<notin> get_random p \<Longrightarrow>
         run [Work idx r1, Work idx r2, Work idx r] p = None"
  using assms
  by (simp_all add: worker_def set_pc_def get_random_def try_pop_def try_steal_def wait_and_pop_def
      list_update_same_conv)

text \<open>
  C6. A run in which a worker at its loop condition does not exit although the pool's
  stop signal is set. A pool with one worker is constructed, \<open>A\<close> is submitted, and the
  destructor executes \<^verbatim>\<open>stop_source_.request_stop()\<close>. The worker's own token is not
  requested by that, so its loop condition holds: it goes on to \<^verbatim>\<open>try_pop\<close>, takes \<open>A\<close>
  and runs it.
\<close>

theorem stop_source_not_observed:
  "map_option observe (run [Submit (Func A) 0, Destroy] (ThreadPool_ctor 1))
     = Some (AtStopWorkers 0, True, [(False, AtLoopTop)], Some [[Func A]], [])
   \<and> map_option observe (run [Submit (Func A) 0, Destroy, Work 0 0] (ThreadPool_ctor 1))
     = Some (AtStopWorkers 0, True, [(False, AtTryPop)], Some [[Func A]], [])
   \<and> map_option observe
       (run [Submit (Func A) 0, Destroy, Work 0 0, Work 0 0, Work 0 0] (ThreadPool_ctor 1))
     = Some (AtStopWorkers 0, True, [(False, AtLoopTop)], Some [[]], [A])"
  by (simp add: ThreadPool_ctor_def ThreadSafeDeque_default_def ThreadSafeDeque_ctor_def
      submit_def worker_def destroy_def set_pc_def observe_def get_random_def push_def try_pop_def)

text \<open>
  The part of teardown that does hold: when the destructor has returned, every worker
  has left \<^verbatim>\<open>worker\<close>, because each \<^verbatim>\<open>jthread\<close> is joined in turn.
\<close>

lemma joined_same:
  "dtor p' = dtor p \<Longrightarrow> length (threads p') = length (threads p) \<Longrightarrow> joined p' = joined p"
  by (simp add: joined_def split: dtor_pc.splits)

lemma set_pc_threads:
  "dtor (set_pc idx c p) = dtor p"
  "length (threads (set_pc idx c p)) = length (threads p)"
  "i \<noteq> idx \<Longrightarrow> threads (set_pc idx c p) ! i = threads p ! i"
  by (simp_all add: set_pc_def)

lemma worker_threads:
  assumes "worker idx r p = Some p'"
  shows "dtor p' = dtor p \<and> length (threads p') = length (threads p)
       \<and> pc (threads p ! idx) \<noteq> Exited
       \<and> (\<forall>i. i \<noteq> idx \<longrightarrow> threads p' ! i = threads p ! i)"
proof -
  from assms have idx: "idx < length (threads p)"
    by (simp add: worker_def split: if_splits)
  show ?thesis
  proof (cases "pc (threads p ! idx)")
    case AtLoopTop
    with assms idx show ?thesis by (auto simp: worker_def set_pc_threads)
  next
    case AtTryPop
    with assms idx show ?thesis
      by (auto simp: worker_def set_pc_threads split: option.splits prod.splits)
  next
    case (AtCall task)
    with assms idx show ?thesis
      by (cases task) (auto simp: worker_def set_pc_threads)
  next
    case AtSteal
    with assms idx show ?thesis
      by (auto simp: worker_def set_pc_threads split: if_splits option.splits prod.splits)
  next
    case AtWaitPop
    with assms idx show ?thesis
      by (auto simp: worker_def set_pc_threads split: option.splits prod.splits outcome.splits)
  next
    case (AtGuardedCall task)
    with assms idx show ?thesis
      by (cases task) (auto simp: worker_def set_pc_threads)
  next
    case Exited
    with assms idx show ?thesis by (simp add: worker_def)
  qed
qed

lemma worker_exited_below:
  assumes "worker idx r p = Some p'" "exited_below k p"
  shows "exited_below k p' \<and> dtor p' = dtor p \<and> length (threads p') = length (threads p)"
proof -
  from worker_threads [OF assms(1)]
  have d: "dtor p' = dtor p" and l: "length (threads p') = length (threads p)"
    and ne: "pc (threads p ! idx) \<noteq> Exited"
    and same: "\<And>i. i \<noteq> idx \<Longrightarrow> threads p' ! i = threads p ! i" by simp_all
  have "exited_below k p'"
    unfolding exited_below_def
  proof (intro allI impI)
    fix i assume i: "i < k" "i < length (threads p')"
    with assms(2) l have e: "pc (threads p ! i) = Exited" by (simp add: exited_below_def)
    with ne have "i \<noteq> idx" by auto
    with same e show "pc (threads p' ! i) = Exited" by simp
  qed
  with d l show ?thesis by simp
qed

lemma submit_threads:
  assumes "submit func i p = Some p'"
  shows "threads p' = threads p \<and> dtor p' = dtor p"
proof -
  from assms obtain x where "p' = p\<lparr>work_queues := x\<rparr>"
    by (auto simp: submit_def split: if_splits option.splits outcome.splits)
  then show ?thesis by simp
qed

lemma submit_exited_below:
  assumes "submit func i p = Some p'" "exited_below k p"
  shows "exited_below k p' \<and> dtor p' = dtor p \<and> length (threads p') = length (threads p)"
  using submit_threads [OF assms(1)] assms(2) by (simp add: exited_below_def)

lemma destroy_joined:
  assumes "destroy p = Some p'" "exited_below (joined p) p"
  shows "exited_below (joined p') p'"
proof (cases "dtor p")
  case Alive
  with assms(1) have "dtor p' = AtStopWorkers 0" by (auto simp: destroy_def)
  then show ?thesis by (simp add: joined_def exited_below_def)
next
  case (AtStopWorkers i)
  with assms(1) have "dtor p' = AtStopWorkers (i + 1) \<or> dtor p' = AtDestroyQueues"
    by (auto simp: destroy_def split: if_splits option.splits)
  then show ?thesis by (auto simp: joined_def exited_below_def)
next
  case AtDestroyQueues
  with assms(1) have "dtor p' = AtStopThread 0" by (auto simp: destroy_def)
  then show ?thesis by (simp add: joined_def exited_below_def)
next
  case (AtStopThread k)
  from assms(2) AtStopThread have b: "exited_below k p" by (simp add: joined_def)
  show ?thesis
  proof (cases "k < length (threads p)")
    case True
    with assms(1) AtStopThread
    have p': "p' = p\<lparr>threads := (threads p)[k := (threads p ! k)\<lparr>stop_state := True\<rparr>],
                      dtor := AtJoinThread k\<rparr>"
      by (simp add: destroy_def)
    have "exited_below k p'"
      unfolding exited_below_def
    proof (intro allI impI)
      fix i assume "i < k" "i < length (threads p')"
      with b show "pc (threads p' ! i) = Exited"
        by (simp add: p' exited_below_def nth_list_update)
    qed
    then show ?thesis by (simp add: p' joined_def)
  next
    case False
    with assms(1) AtStopThread have p': "p' = p\<lparr>dtor := Destroyed\<rparr>"
      by (simp add: destroy_def)
    from b False show ?thesis by (simp add: p' joined_def exited_below_def)
  qed
next
  case (AtJoinThread k)
  from assms(2) AtJoinThread have b: "exited_below k p" by (simp add: joined_def)
  from assms(1) AtJoinThread have e: "pc (threads p ! k) = Exited"
    and p': "p' = p\<lparr>dtor := AtStopThread (k + 1)\<rparr>"
    by (simp_all add: destroy_def split: if_splits)
  have "exited_below (k + 1) p'"
    unfolding exited_below_def
  proof (intro allI impI)
    fix i assume "i < k + 1" "i < length (threads p')"
    then have "i < k \<or> i = k" by auto
    with b e \<open>i < length (threads p')\<close> show "pc (threads p' ! i) = Exited"
      by (auto simp: p' exited_below_def)
  qed
  then show ?thesis by (simp add: p' joined_def)
next
  case Destroyed
  with assms(1) show ?thesis by (simp add: destroy_def)
qed

lemma step_joined:
  assumes "step e p = Some p'" "exited_below (joined p) p"
  shows "exited_below (joined p') p'"
proof (cases e)
  case (Submit func i)
  with assms(1) have "submit func i p = Some p'" by (simp split: if_splits)
  from submit_exited_below [OF this assms(2)] joined_same [of p' p] show ?thesis
    by simp
next
  case (Work idx r)
  with assms(1) have "worker idx r p = Some p'" by (simp split: if_splits)
  from worker_exited_below [OF this assms(2)] joined_same [of p' p] show ?thesis
    by simp
next
  case Destroy
  with assms(1) have "destroy p = Some p'" by (simp split: if_splits)
  from destroy_joined [OF this assms(2)] show ?thesis .
qed

lemma run_joined:
  "run es p = Some p' \<Longrightarrow> exited_below (joined p) p \<Longrightarrow> exited_below (joined p') p'"
proof (induction es arbitrary: p)
  case Nil
  then show ?case by simp
next
  case (Cons e es)
  from Cons.prems(1) obtain p1 where s: "step e p = Some p1" and r: "run es p1 = Some p'"
    by (auto split: option.splits)
  from Cons.IH [OF r step_joined [OF s Cons.prems(2)]] show ?case .
qed

lemma teardown_joins_workers:
  assumes "run es (ThreadPool_ctor hw) = Some p" "dtor p = Destroyed"
  shows "list_all (\<lambda>w. pc w = Exited) (threads p)"
proof -
  have "exited_below (joined (ThreadPool_ctor hw)) (ThreadPool_ctor hw)"
    by (simp add: exited_below_def joined_def ThreadPool_ctor_def Let_def)
  from run_joined [OF assms(1) this] assms(2) show ?thesis
    by (auto simp: exited_below_def joined_def list_all_length)
qed

text \<open>
  C1. A run in which teardown leaves a queued callable unexecuted. A pool with one worker
  is constructed and \<open>A\<close> is submitted: \<open>A\<close> is in queue 0 and the worker is at its loop
  condition. The destructor then requests stop on \<^verbatim>\<open>stop_source_\<close>, closes queue 0, ends
  its body, deletes the queue array and requests stop on the worker's \<^verbatim>\<open>jthread\<close>. The
  worker now evaluates its loop condition, finds the stop requested and leaves the loop.
  The join returns and the destructor is done: the worker has exited, and \<open>A\<close> has not run.
\<close>

theorem teardown_leaves_task:
  "map_option observe (run [Submit (Func A) 0] (ThreadPool_ctor 1))
     = Some (Alive, False, [(False, AtLoopTop)], Some [[Func A]], [])
   \<and> map_option observe
       (run [Submit (Func A) 0, Destroy, Destroy, Destroy, Destroy, Destroy, Work 0 0, Destroy, Destroy]
          (ThreadPool_ctor 1))
     = Some (Destroyed, True, [(True, Exited)], None, [])"
  by (simp add: ThreadPool_ctor_def ThreadSafeDeque_default_def ThreadSafeDeque_ctor_def
      submit_def worker_def destroy_def set_pc_def observe_def get_random_def push_def close_def)

end
